theory Spec2Isabelle
  imports Main "HOL-Library.Sublist"
begin

section \<open>JavaScript values\<close>

text \<open>
  The values a Racer path can hold. \<open>Undefined\<close> is also what an omitted optional
  argument (\<^verbatim>\<open>defaultValue?: T\<close>) evaluates to. JavaScript numbers are taken as
  integers: no claim depends on their arithmetic.
\<close>

datatype jsval =
    Undefined
  | Null
  | JBool bool
  | JNum int
  | JStr string
  | JObj "(string \<times> jsval) list"

text \<open>\<^verbatim>\<open>v == null\<close>: true of \<^verbatim>\<open>null\<close> and \<^verbatim>\<open>undefined\<close> only.\<close>

definition nullish :: "jsval \<Rightarrow> bool" where
  "nullish v = (v = Undefined \<or> v = Null)"

text \<open>\<^verbatim>\<open>a ?? b\<close>.\<close>

definition coalesce :: "jsval \<Rightarrow> jsval \<Rightarrow> jsval" where
  "coalesce a b = (if nullish a then b else a)"

section \<open>The Racer model and the React hook cells\<close>

text \<open>
  A scoped model (\<^verbatim>\<open>Model<T>\<close>): a JavaScript object with its own identity
  (\<open>handle_id\<close>), a reference to its root model, a path (the dot-separated string,
  kept as its list of segments) and an event context.
\<close>

record scoped_model =
  handle_id :: nat
  root :: nat
  path :: "string list"
  eventContext :: "nat option"

text \<open>
  A registered \<^verbatim>\<open>'all'\<close> listener of \<^verbatim>\<open>racer.ts\<close>, lines 47 to 49: the closure holds
  \<^verbatim>\<open>listenerModel\<close> and the \<^verbatim>\<open>setStateValue\<close> of the consumer that registered it.
\<close>

record listener =
  lid :: nat
  listenerModel :: scoped_model
  consumer :: nat

text \<open>
  What React keeps for one \<^verbatim>\<open>useRacerState\<close> call site of one mounted component (a
  consumer): the \<^verbatim>\<open>useState\<close> cell, the number of times its setter was called, and
  for \<^verbatim>\<open>useEffect\<close> the dependency array of the effect that last ran together with
  the cleanup it returned. The cleanup of lines 50 to 52 is a closure over
  \<^verbatim>\<open>listenerModel\<close> and \<^verbatim>\<open>listener\<close>, kept as that pair.
\<close>

type_synonym deps = "nat \<times> string list \<times> nat option"

type_synonym cleanup = "scoped_model \<times> nat"

record hook_state =
  rendered :: bool
  stateValue :: jsval
  setState_calls :: nat
  effect :: "(deps \<times> cleanup) option"

text \<open>The calls made on the Racer API, in order.\<close>

datatype call =
    GetDeepCopy nat "string list"
  | SetNull nat "string list" jsval
  | SetValue nat "string list" jsval
  | OnAll nat "string list" "nat option" nat
  | RemoveListener nat nat

record world =
  data :: "nat \<Rightarrow> string list \<Rightarrow> jsval"
  listeners :: "listener list"
  next_lid :: nat
  cells :: "nat \<Rightarrow> hook_state"
  calls :: "call list"

subsection \<open>The Racer operations the hook calls\<close>

text \<open>
  Modelled from the spec: the observable store is the external library \<^verbatim>\<open>racer\<close>,
  of which the repository holds no code. Section 6 of the specification asks of it
  path-scoped handles with deep-copy reads, direct overwrite and null-coalescing set,
  and a subscription mechanism matching recursively beneath a path that hands back a
  disposable listener. The store is kept at the granularity the hook uses it, one value
  per root and path; how a write shows in the values of ancestor paths is not modelled.
  Values are immutable here, so a deep copy is the value.
\<close>

definition log :: "call \<Rightarrow> world \<Rightarrow> world" where
  "log c w = w\<lparr>calls := calls w @ [c]\<rparr>"

definition getDeepCopy :: "scoped_model \<Rightarrow> world \<Rightarrow> jsval \<times> world" where
  "getDeepCopy m w = (data w (root m) (path m), log (GetDeepCopy (root m) (path m)) w)"

text \<open>\<^verbatim>\<open>rootModel.at(path)\<close> and \<^verbatim>\<open>model.eventContext(id)\<close> build new handles.\<close>

definition model_at :: "nat \<Rightarrow> string list \<Rightarrow> scoped_model" where
  "model_at r p = \<lparr>handle_id = 0, root = r, path = p, eventContext = None\<rparr>"

definition with_eventContext :: "scoped_model \<Rightarrow> nat option \<Rightarrow> scoped_model" where
  "with_eventContext m ctx = m\<lparr>eventContext := ctx\<rparr>"

text \<open>\<^verbatim>\<open>setStateValue\<close> of consumer \<open>c\<close>, the setter \<^verbatim>\<open>useState\<close> hands out.\<close>

definition setStateValue :: "nat \<Rightarrow> jsval \<Rightarrow> world \<Rightarrow> world" where
  "setStateValue c v w =
     w\<lparr>cells := (cells w)(c := (cells w c)\<lparr>stateValue := v,
          setState_calls := Suc (setState_calls (cells w c))\<rparr>)\<rparr>"

text \<open>
  The listener body of \<^verbatim>\<open>racer.ts\<close>, line 48:
  \<^verbatim>\<open>setStateValue(listenerModel.getDeepCopy())\<close>.
\<close>

definition run_listener :: "listener \<Rightarrow> world \<Rightarrow> world" where
  "run_listener l w =
     (let (v, w1) = getDeepCopy (listenerModel l) w
      in setStateValue (consumer l) v w1)"

text \<open>
  A listener registered on a model scoped to \<open>p\<close> with the pattern \<^verbatim>\<open>'**'\<close> hears the
  mutations of its root at \<open>p\<close> and beneath it. The event context takes no part in
  the matching.
\<close>

definition matches :: "nat \<Rightarrow> string list \<Rightarrow> listener \<Rightarrow> bool" where
  "matches r segs l = (root (listenerModel l) = r \<and> prefix (path (listenerModel l)) segs)"

definition emit :: "nat \<Rightarrow> string list \<Rightarrow> world \<Rightarrow> world" where
  "emit r segs w = fold run_listener (filter (matches r segs) (listeners w)) w"

definition store_write :: "nat \<Rightarrow> string list \<Rightarrow> jsval \<Rightarrow> world \<Rightarrow> world" where
  "store_write r p v w = emit r p (w\<lparr>data := (data w)(r := (data w r)(p := v))\<rparr>)"

definition model_set :: "scoped_model \<Rightarrow> jsval \<Rightarrow> world \<Rightarrow> world" where
  "model_set m v w = store_write (root m) (path m) v (log (SetValue (root m) (path m) v) w)"

definition setNull :: "scoped_model \<Rightarrow> jsval \<Rightarrow> world \<Rightarrow> world" where
  "setNull m v w =
     (let w1 = log (SetNull (root m) (path m) v) w
      in if nullish (data w (root m) (path m)) then store_write (root m) (path m) v w1 else w1)"

definition model_on :: "scoped_model \<Rightarrow> nat \<Rightarrow> world \<Rightarrow> nat \<times> world" where
  "model_on m c w =
     (next_lid w,
      log (OnAll (root m) (path m) (eventContext m) (next_lid w))
        (w\<lparr>listeners := listeners w @ [\<lparr>lid = next_lid w, listenerModel = m, consumer = c\<rparr>],
           next_lid := Suc (next_lid w)\<rparr>))"

definition removeListener :: "scoped_model \<Rightarrow> nat \<Rightarrow> world \<Rightarrow> world" where
  "removeListener m i w =
     log (RemoveListener (root m) i)
       (w\<lparr>listeners := filter (\<lambda>l. \<not> (root (listenerModel l) = root m \<and> lid l = i)) (listeners w)\<rparr>)"

subsection \<open>The React hooks the hook calls\<close>

text \<open>
  Modelled from the spec: \<^verbatim>\<open>useState\<close> and \<^verbatim>\<open>useEffect\<close> belong to the external
  library \<^verbatim>\<open>react\<close>. \<^verbatim>\<open>useState\<close> takes its argument on the first render of a
  consumer only. \<^verbatim>\<open>useEffect\<close> runs the effect on the first render; on a later render
  it compares the dependency array with the one of the effect that last ran and, when
  they differ, runs the kept cleanup and then the effect. React runs effects once the
  component function has returned; nothing of \<^verbatim>\<open>useRacerState\<close> after line 53 touches
  the store, so the effect is run where it is declared.
\<close>

definition useState :: "nat \<Rightarrow> jsval \<Rightarrow> world \<Rightarrow> world" where
  "useState c init w =
     (if rendered (cells w c) then w
      else w\<lparr>cells := (cells w)(c := (cells w c)\<lparr>rendered := True, stateValue := init\<rparr>)\<rparr>)"

definition set_effect :: "nat \<Rightarrow> (deps \<times> cleanup) option \<Rightarrow> world \<Rightarrow> world" where
  "set_effect c e w = w\<lparr>cells := (cells w)(c := (cells w c)\<lparr>effect := e\<rparr>)\<rparr>"

definition useEffect ::
  "nat \<Rightarrow> (world \<Rightarrow> cleanup \<times> world) \<Rightarrow> (cleanup \<Rightarrow> world \<Rightarrow> world) \<Rightarrow> deps \<Rightarrow> world \<Rightarrow> world" where
  "useEffect c eff run_cleanup ds w =
     (case effect (cells w c) of
        None \<Rightarrow> (let (cl, w1) = eff w in set_effect c (Some (ds, cl)) w1)
      | Some (ds0, cl0) \<Rightarrow>
          if ds0 = ds then w
          else (let w1 = run_cleanup cl0 w; (cl, w2) = eff w1
                in set_effect c (Some (ds, cl)) w2))"

text \<open>
  Discarding a consumer runs the cleanup of its effect. A component mounted later is
  another consumer: consumer numbers are not used again.
\<close>

definition unmount :: "nat \<Rightarrow> (cleanup \<Rightarrow> world \<Rightarrow> world) \<Rightarrow> world \<Rightarrow> world" where
  "unmount c run_cleanup w =
     (case effect (cells w c) of
        None \<Rightarrow> w
      | Some (ds0, cl0) \<Rightarrow> set_effect c None (run_cleanup cl0 w))"

section \<open>\<^verbatim>\<open>src/racer.ts\<close>: \<^verbatim>\<open>useRacerState\<close>\<close>

text \<open>Lines 46 to 52: the effect registers the listener and returns its cleanup.\<close>

definition subscription_effect ::
  "nat \<Rightarrow> nat \<Rightarrow> string list \<Rightarrow> nat option \<Rightarrow> world \<Rightarrow> cleanup \<times> world" where
  "subscription_effect c rootModel modelPath modelEventContext w =
     (let listenerModel = with_eventContext (model_at rootModel modelPath) modelEventContext;
          (listener, w1) = model_on listenerModel c w
      in ((listenerModel, listener), w1))"

definition subscription_cleanup :: "cleanup \<Rightarrow> world \<Rightarrow> world" where
  "subscription_cleanup cl w = removeListener (fst cl) (snd cl) w"

text \<open>Lines 56 to 58: the returned setter, a closure over \<^verbatim>\<open>scopedModel\<close>.\<close>

definition setModelValue :: "scoped_model \<Rightarrow> jsval \<Rightarrow> world \<Rightarrow> world" where
  "setModelValue scopedModel newValue w = model_set scopedModel newValue w"

text \<open>
  Lines 27 to 59, for the consumer \<open>c\<close> that is rendering. The result is the pair of
  \<^verbatim>\<open>modelValue\<close> and the setter, given as the \<^verbatim>\<open>scopedModel\<close> it closes over.
\<close>

definition useRacerState ::
  "nat \<Rightarrow> scoped_model \<Rightarrow> jsval \<Rightarrow> world \<Rightarrow> (jsval \<times> scoped_model) \<times> world" where
  "useRacerState c scopedModel defaultValue w =
     (let (v, w1) = getDeepCopy scopedModel w;
          modelValue = coalesce v defaultValue;
          w2 = (if \<not> nullish defaultValue then setNull scopedModel defaultValue w1 else w1);
          w3 = useState c modelValue w2;
          rootModel = root scopedModel;
          modelPath = path scopedModel;
          modelEventContext = eventContext scopedModel;
          w4 = useEffect c (subscription_effect c rootModel modelPath modelEventContext)
                 subscription_cleanup (rootModel, modelPath, modelEventContext) w3
      in ((modelValue, scopedModel), w4))"

text \<open>The store's value at the path of a scoped model.\<close>

definition value_at :: "world \<Rightarrow> scoped_model \<Rightarrow> jsval" where
  "value_at w m = data w (root m) (path m)"

text \<open>The three comparison keys of lines 42 to 44, the dependency array of line 53.\<close>

definition keys :: "scoped_model \<Rightarrow> deps" where
  "keys m = (root m, path m, eventContext m)"

subsection \<open>Well-formed worlds\<close>

text \<open>
  The listeners a consumer has in the store, and the invariant of the hook: listener
  identities are distinct and below the next one to be handed out, and every consumer
  has exactly the listener its kept cleanup names (none when it keeps no cleanup),
  registered on the keys of its kept dependency array.
\<close>

definition subscribed :: "world \<Rightarrow> nat \<Rightarrow> listener list" where
  "subscribed w c = filter (\<lambda>l. consumer l = c) (listeners w)"

definition lids_ok :: "world \<Rightarrow> bool" where
  "lids_ok w = (distinct (map lid (listeners w)) \<and> (\<forall>l \<in> set (listeners w). lid l < next_lid w))"

definition consumer_ok :: "world \<Rightarrow> nat \<Rightarrow> bool" where
  "consumer_ok w c =
     (case effect (cells w c) of
        None \<Rightarrow> subscribed w c = []
      | Some (ds, cl) \<Rightarrow>
          subscribed w c = [\<lparr>lid = snd cl, listenerModel = fst cl, consumer = c\<rparr>] \<and>
          ds = keys (fst cl))"

definition wf :: "world \<Rightarrow> bool" where
  "wf w = (lids_ok w \<and> (\<forall>c. consumer_ok w c))"

subsection \<open>Runs\<close>

text \<open>
  What can happen to a world: a consumer renders (calling \<^verbatim>\<open>useRacerState\<close>), a
  returned setter is called, other code sets a value through a scoped model, or a
  consumer is discarded.
\<close>

datatype action =
    Render nat scoped_model jsval
  | CallSetter scoped_model jsval
  | ModelSet scoped_model jsval
  | Discard nat

fun step :: "action \<Rightarrow> world \<Rightarrow> world" where
  "step (Render c m d) w = snd (useRacerState c m d w)"
| "step (CallSetter m v) w = setModelValue m v w"
| "step (ModelSet m v) w = model_set m v w"
| "step (Discard c) w = unmount c subscription_cleanup w"

definition run :: "action list \<Rightarrow> world \<Rightarrow> world" where
  "run acts w = fold step acts w"

subsection \<open>Example worlds\<close>

definition initial_hook :: hook_state where
  "initial_hook = \<lparr>rendered = False, stateValue = Undefined, setState_calls = 0, effect = None\<rparr>"

definition empty_world :: world where
  "empty_world = \<lparr>data = (\<lambda>r p. Undefined), listeners = [], next_lid = 0,
     cells = (\<lambda>c. initial_hook), calls = []\<rparr>"

definition counter_model :: scoped_model where
  "counter_model = \<lparr>handle_id = 1, root = 0, path = [''_page'', ''counter''], eventContext = None\<rparr>"

definition message_model :: scoped_model where
  "message_model = \<lparr>handle_id = 2, root = 0, path = [''_page'', ''message''], eventContext = None\<rparr>"

text \<open>
  The world after the first render of consumer 0 bound to \<^verbatim>\<open>_page.counter\<close> with the
  default 1, and that world after something else has set the path to \<^verbatim>\<open>null\<close>.
\<close>

definition counter_bound :: world where
  "counter_bound = snd (useRacerState 0 counter_model (JNum 1) empty_world)"

definition counter_nulled :: world where
  "counter_nulled = model_set counter_model Null counter_bound"

section \<open>\<^verbatim>\<open>src/derby.ts\<close>: \<^verbatim>\<open>renderReactComponent\<close>\<close>

text \<open>
  A rendering root of \<^verbatim>\<open>react-dom/client\<close>, the event listeners of Derby components, and
  what the React runtime does with a container or a node, taken as parameters: whether
  \<^verbatim>\<open>createRoot\<close> accepts the container, and whether rendering the node throws.
  Containers, nodes and components are referred to by number.
\<close>

datatype root_status = Created | Rendered nat | Unmounted

record react_root =
  container :: nat
  rootOptions :: jsval
  status :: root_status

text \<open>
  A listener on a Derby component: the closure of \<^verbatim>\<open>derby.ts\<close>, lines 36 to 38, which
  unmounts the root it holds, or a listener of other code, which leaves the roots alone.
\<close>

datatype callback = UnmountRoot nat | Foreign nat

datatype error = InvalidContainer | RenderError | UnmountedRoot

record dom =
  roots :: "nat \<Rightarrow> react_root option"
  next_root :: nat
  handlers :: "(nat \<times> string \<times> callback) list"
  valid_container :: "nat \<Rightarrow> bool"
  render_throws :: "nat \<Rightarrow> bool"

record handle =
  reactRoot :: nat

text \<open>
  Modelled from the spec: \<^verbatim>\<open>createRoot\<close>, \<^verbatim>\<open>render\<close> and \<^verbatim>\<open>unmount\<close> belong to the
  external library \<^verbatim>\<open>react-dom\<close>, \<^verbatim>\<open>on\<close> and the emission of \<^verbatim>\<open>'destroy'\<close> to the
  external library \<^verbatim>\<open>derby\<close>. Section 6 of the specification asks for a root-creation
  primitive with render and unmount operations and for a component with an observable
  destroy event; section 4.2 lets root creation and the initial render throw.
\<close>

definition createRoot :: "nat \<Rightarrow> jsval \<Rightarrow> dom \<Rightarrow> (error + nat) \<times> dom" where
  "createRoot c opts d =
     (if valid_container d c
      then (Inr (next_root d),
            d\<lparr>roots := (roots d)(next_root d \<mapsto> \<lparr>container = c, rootOptions = opts, status = Created\<rparr>),
              next_root := Suc (next_root d)\<rparr>)
      else (Inl InvalidContainer, d))"

definition root_render :: "nat \<Rightarrow> nat \<Rightarrow> dom \<Rightarrow> (error + unit) \<times> dom" where
  "root_render r node d =
     (case roots d r of
        None \<Rightarrow> (Inl UnmountedRoot, d)
      | Some rt \<Rightarrow>
          if status rt = Unmounted then (Inl UnmountedRoot, d)
          else if render_throws d node then (Inl RenderError, d)
          else (Inr (), d\<lparr>roots := (roots d)(r \<mapsto> rt\<lparr>status := Rendered node\<rparr>)\<rparr>))"

definition root_unmount :: "nat \<Rightarrow> dom \<Rightarrow> dom" where
  "root_unmount r d =
     (case roots d r of
        None \<Rightarrow> d
      | Some rt \<Rightarrow> d\<lparr>roots := (roots d)(r \<mapsto> rt\<lparr>status := Unmounted\<rparr>)\<rparr>)"

definition component_on :: "nat \<Rightarrow> string \<Rightarrow> callback \<Rightarrow> dom \<Rightarrow> dom" where
  "component_on host ev cb d = d\<lparr>handlers := handlers d @ [(host, ev, cb)]\<rparr>"

fun run_callback :: "callback \<Rightarrow> dom \<Rightarrow> dom" where
  "run_callback (UnmountRoot r) d = root_unmount r d"
| "run_callback (Foreign n) d = d"

definition hears :: "nat \<Rightarrow> string \<Rightarrow> nat \<times> string \<times> callback \<Rightarrow> bool" where
  "hears host ev h = (fst h = host \<and> fst (snd h) = ev)"

definition component_emit :: "nat \<Rightarrow> string \<Rightarrow> dom \<Rightarrow> dom" where
  "component_emit host ev d =
     fold run_callback (map (\<lambda>h. snd (snd h)) (filter (hears host ev) (handlers d))) d"

text \<open>A run of the host framework: events emitted on components, in order.\<close>

definition run_events :: "(nat \<times> string) list \<Rightarrow> dom \<Rightarrow> dom" where
  "run_events evs d = fold (\<lambda>e. component_emit (fst e) (snd e)) evs d"

text \<open>Lines 29 to 41. An exception leaves the function with the state reached so far.\<close>

definition renderReactComponent ::
  "nat \<Rightarrow> nat \<Rightarrow> nat \<Rightarrow> jsval \<Rightarrow> dom \<Rightarrow> (error + handle) \<times> dom" where
  "renderReactComponent derbyComponent domContainer reactComponent reactRootOptions d =
     (case createRoot domContainer reactRootOptions d of
        (Inl e, d1) \<Rightarrow> (Inl e, d1)
      | (Inr newRoot, d1) \<Rightarrow>
          (let d2 = component_on derbyComponent ''destroy'' (UnmountRoot newRoot) d1
           in case root_render newRoot reactComponent d2 of
                (Inl e, d3) \<Rightarrow> (Inl e, d3)
              | (Inr u, d3) \<Rightarrow> (Inr \<lparr>reactRoot = newRoot\<rparr>, d3)))"

definition unmounted :: "dom \<Rightarrow> nat \<Rightarrow> bool" where
  "unmounted d r = (case roots d r of None \<Rightarrow> False | Some rt \<Rightarrow> status rt = Unmounted)"

text \<open>No listener holds a root that does not exist yet.\<close>

definition dom_ok :: "dom \<Rightarrow> bool" where
  "dom_ok d = (\<forall>h \<in> set (handlers d). \<forall>r. snd (snd h) = UnmountRoot r \<longrightarrow> r < next_root d)"

definition empty_dom :: dom where
  "empty_dom = \<lparr>roots = (\<lambda>r. None), next_root = 0, handlers = [],
     valid_container = (\<lambda>c. True), render_throws = (\<lambda>n. n = 13)\<rparr>"

subsection \<open>The declared parameters\<close>

text \<open>
  The parameter lists as the two functions declare them (\<^verbatim>\<open>racer.ts\<close>, lines 27 to 30,
  \<^verbatim>\<open>derby.ts\<close>, lines 29 to 34): a parameter written \<^verbatim>\<open>name?: T\<close> is optional, any
  other is required. TypeScript accepts a call when it supplies every required
  parameter and no more arguments than there are parameters.
\<close>

datatype param = Required string | Optional string

fun is_required :: "param \<Rightarrow> bool" where
  "is_required (Required n) = True"
| "is_required (Optional n) = False"

definition useRacerState_params :: "param list" where
  "useRacerState_params = [Required ''scopedModel'', Optional ''defaultValue'']"

definition renderReactComponent_params :: "param list" where
  "renderReactComponent_params =
     [Required ''derbyComponent'', Required ''domContainer'', Required ''reactComponent'',
      Required ''reactRootOptions'']"

definition accepts_arguments :: "param list \<Rightarrow> nat \<Rightarrow> bool" where
  "accepts_arguments ps n = (length (filter is_required ps) \<le> n \<and> n \<le> length ps)"

section \<open>What the operations leave alone\<close>

lemma data_log [simp]: "data (log c w) = data w"
  by (simp add: log_def)

lemma listeners_log [simp]: "listeners (log c w) = listeners w"
  by (simp add: log_def)

lemma cells_log [simp]: "cells (log c w) = cells w"
  by (simp add: log_def)

lemma next_lid_log [simp]: "next_lid (log c w) = next_lid w"
  by (simp add: log_def)

lemma calls_log [simp]: "calls (log c w) = calls w @ [c]"
  by (simp add: log_def)

lemma data_run_listener [simp]: "data (run_listener l w) = data w"
  by (simp add: run_listener_def getDeepCopy_def setStateValue_def)

lemma listeners_run_listener [simp]: "listeners (run_listener l w) = listeners w"
  by (simp add: run_listener_def getDeepCopy_def setStateValue_def)

lemma next_lid_run_listener [simp]: "next_lid (run_listener l w) = next_lid w"
  by (simp add: run_listener_def getDeepCopy_def setStateValue_def)

lemma data_fold_run [simp]: "data (fold run_listener ls w) = data w"
  by (induction ls arbitrary: w) simp_all

lemma listeners_fold_run [simp]: "listeners (fold run_listener ls w) = listeners w"
  by (induction ls arbitrary: w) simp_all

lemma next_lid_fold_run [simp]: "next_lid (fold run_listener ls w) = next_lid w"
  by (induction ls arbitrary: w) simp_all

lemma data_emit [simp]: "data (emit r p w) = data w"
  by (simp add: emit_def)

lemma listeners_emit [simp]: "listeners (emit r p w) = listeners w"
  by (simp add: emit_def)

lemma next_lid_emit [simp]: "next_lid (emit r p w) = next_lid w"
  by (simp add: emit_def)

lemma data_write [simp]: "data (store_write r p v w) = (data w)(r := (data w r)(p := v))"
  by (simp add: store_write_def)

lemma listeners_write [simp]: "listeners (store_write r p v w) = listeners w"
  by (simp add: store_write_def)

lemma next_lid_write [simp]: "next_lid (store_write r p v w) = next_lid w"
  by (simp add: store_write_def)

lemma data_setNull:
  "data (setNull m v w) =
     (if nullish (data w (root m) (path m))
      then (data w)(root m := (data w (root m))(path m := v)) else data w)"
  by (simp add: setNull_def Let_def)

lemma listeners_setNull [simp]: "listeners (setNull m v w) = listeners w"
  by (simp add: setNull_def Let_def)

lemma next_lid_setNull [simp]: "next_lid (setNull m v w) = next_lid w"
  by (simp add: setNull_def Let_def)

lemma data_useState [simp]: "data (useState c v w) = data w"
  by (simp add: useState_def)

lemma listeners_useState [simp]: "listeners (useState c v w) = listeners w"
  by (simp add: useState_def)

lemma next_lid_useState [simp]: "next_lid (useState c v w) = next_lid w"
  by (simp add: useState_def)

lemma data_set_effect [simp]: "data (set_effect c e w) = data w"
  by (simp add: set_effect_def)

lemma listeners_set_effect [simp]: "listeners (set_effect c e w) = listeners w"
  by (simp add: set_effect_def)

lemma next_lid_set_effect [simp]: "next_lid (set_effect c e w) = next_lid w"
  by (simp add: set_effect_def)

lemma data_subscription_effect [simp]:
  "data (snd (subscription_effect c r p ctx w)) = data w"
  by (simp add: subscription_effect_def model_on_def Let_def)

lemma data_subscription_cleanup [simp]: "data (subscription_cleanup cl w) = data w"
  by (simp add: subscription_cleanup_def removeListener_def)

lemma data_useEffect [simp]:
  "data (useEffect c (subscription_effect c r p ctx) subscription_cleanup ds w) = data w"
  by (simp add: useEffect_def Let_def split_beta split: option.splits)

lemma data_useRacerState:
  "data (snd (useRacerState c m d w)) =
     (if \<not> nullish d \<and> nullish (data w (root m) (path m))
      then (data w)(root m := (data w (root m))(path m := d)) else data w)"
  by (simp add: useRacerState_def getDeepCopy_def Let_def data_setNull)

lemma fst_useRacerState:
  "fst (useRacerState c m d w) = (coalesce (data w (root m) (path m)) d, m)"
  by (simp add: useRacerState_def getDeepCopy_def Let_def)

lemma cells_run_listener:
  "cells (run_listener l w) =
     (cells w)(consumer l := (cells w (consumer l))\<lparr>stateValue := value_at w (listenerModel l),
        setState_calls := Suc (setState_calls (cells w (consumer l)))\<rparr>)"
  by (simp add: run_listener_def getDeepCopy_def setStateValue_def value_at_def)

lemma effect_run_listener [simp]: "effect (cells (run_listener l w) c) = effect (cells w c)"
  by (simp add: cells_run_listener)

lemma rendered_run_listener [simp]: "rendered (cells (run_listener l w) c) = rendered (cells w c)"
  by (simp add: cells_run_listener)

lemma effect_fold_run [simp]: "effect (cells (fold run_listener ls w) c) = effect (cells w c)"
  by (induction ls arbitrary: w) simp_all

lemma rendered_fold_run [simp]: "rendered (cells (fold run_listener ls w) c) = rendered (cells w c)"
  by (induction ls arbitrary: w) simp_all

lemma effect_store_write [simp]: "effect (cells (store_write r p v w) c) = effect (cells w c)"
  by (simp add: store_write_def emit_def)

lemma rendered_store_write [simp]: "rendered (cells (store_write r p v w) c) = rendered (cells w c)"
  by (simp add: store_write_def emit_def)

lemma effect_setNull [simp]: "effect (cells (setNull m v w) c) = effect (cells w c)"
  by (simp add: setNull_def Let_def)

lemma effect_useState [simp]: "effect (cells (useState c' v w) c) = effect (cells w c)"
  by (simp add: useState_def)

lemma effect_set_effect: "effect (cells (set_effect c' e w) c) = (if c = c' then e else effect (cells w c))"
  by (simp add: set_effect_def)

lemma data_model_set [simp]:
  "data (model_set m v w) = (data w)(root m := (data w (root m))(path m := v))"
  by (simp add: model_set_def)

lemma listeners_model_set [simp]: "listeners (model_set m v w) = listeners w"
  by (simp add: model_set_def)

lemma next_lid_model_set [simp]: "next_lid (model_set m v w) = next_lid w"
  by (simp add: model_set_def)

lemma effect_model_set [simp]: "effect (cells (model_set m v w) c) = effect (cells w c)"
  by (simp add: model_set_def)

lemma rendered_model_set [simp]: "rendered (cells (model_set m v w) c) = rendered (cells w c)"
  by (simp add: model_set_def)

lemma wf_cong:
  assumes "listeners w' = listeners w" and "next_lid w' = next_lid w"
    and "\<And>c. effect (cells w' c) = effect (cells w c)"
  shows "wf w' = wf w"
proof -
  have s: "subscribed w' = subscribed w"
    using assms(1) by (simp add: subscribed_def fun_eq_iff)
  have "consumer_ok w' c = consumer_ok w c" for c
    unfolding consumer_ok_def s assms(3) by (rule refl)
  then show ?thesis
    using assms(1,2) by (simp add: wf_def lids_ok_def)
qed

lemma wf_log [simp]: "wf (log c w) = wf w"
  by (rule wf_cong) simp_all

lemma wf_store_write [simp]: "wf (store_write r p v w) = wf w"
  by (rule wf_cong) simp_all

lemma wf_model_set [simp]: "wf (model_set m v w) = wf w"
  by (rule wf_cong) simp_all

lemma wf_setNull [simp]: "wf (setNull m v w) = wf w"
  by (rule wf_cong) simp_all

lemma wf_useState [simp]: "wf (useState c v w) = wf w"
  by (rule wf_cong) simp_all

text \<open>Removing by identity.\<close>

lemma lid_inj:
  assumes "distinct (map lid ls)" and "x \<in> set ls" and "l \<in> set ls" and "lid l = lid x"
  shows "l = x"
  using assms by (meson distinct_map inj_on_def)

lemma filter_by_lid:
  assumes "distinct (map lid ls)" and "x \<in> set ls"
  shows "filter (\<lambda>l. \<not> (root (listenerModel l) = root (listenerModel x) \<and> lid l = lid x)) ls
       = filter (\<lambda>l. l \<noteq> x) ls"
  by (rule filter_cong) (use assms lid_inj in auto)

lemma filter_neq_remove1:
  assumes "distinct (map lid ls)"
  shows "filter (\<lambda>l. l \<noteq> x) ls = remove1 x ls"
proof -
  from assms have "distinct ls" by (simp add: distinct_map)
  then show ?thesis
    by (simp add: distinct_remove1_removeAll removeAll_filter_not_eq) (metis)
qed

section \<open>The invariant of the subscriptions\<close>

lemma consumer_ok_cong:
  assumes "subscribed w' c = subscribed w c" and "effect (cells w' c) = effect (cells w c)"
  shows "consumer_ok w' c = consumer_ok w c"
  unfolding consumer_ok_def assms by (rule refl)

lemma wf_unbound:
  assumes "wf w" and "effect (cells w c) = None"
  shows "subscribed w c = []"
proof -
  from assms(1) have "consumer_ok w c" by (simp add: wf_def)
  then show ?thesis using assms(2) by (simp add: consumer_ok_def)
qed

lemma wf_bound:
  assumes "wf w" and "effect (cells w c) = Some (ds, cl)"
  shows "subscribed w c = [\<lparr>lid = snd cl, listenerModel = fst cl, consumer = c\<rparr>]"
    and "ds = keys (fst cl)"
proof -
  from assms(1) have "consumer_ok w c" by (simp add: wf_def)
  then show "subscribed w c = [\<lparr>lid = snd cl, listenerModel = fst cl, consumer = c\<rparr>]"
    and "ds = keys (fst cl)"
    using assms(2) by (simp_all add: consumer_ok_def)
qed

lemma kept_listener_registered:
  assumes "wf w" and "effect (cells w c) = Some (ds, cl)"
  shows "\<lparr>lid = snd cl, listenerModel = fst cl, consumer = c\<rparr> \<in> set (listeners w)"
proof -
  from assms have "subscribed w c = [\<lparr>lid = snd cl, listenerModel = fst cl, consumer = c\<rparr>]"
    by (rule wf_bound)
  then have "\<lparr>lid = snd cl, listenerModel = fst cl, consumer = c\<rparr> \<in> set (subscribed w c)"
    by simp
  then show ?thesis by (simp add: subscribed_def)
qed

lemma listeners_cleanup_filter:
  assumes "wf w" and "effect (cells w c) = Some (ds, cl)"
  shows "listeners (subscription_cleanup cl w) =
         filter (\<lambda>l. l \<noteq> \<lparr>lid = snd cl, listenerModel = fst cl, consumer = c\<rparr>) (listeners w)"
proof -
  let ?x = "\<lparr>lid = snd cl, listenerModel = fst cl, consumer = c\<rparr>"
  have d: "distinct (map lid (listeners w))" using assms(1) by (simp add: wf_def lids_ok_def)
  have x: "?x \<in> set (listeners w)" using assms by (rule kept_listener_registered)
  from filter_by_lid [OF d x] show ?thesis
    by (simp add: subscription_cleanup_def removeListener_def)
qed

lemma listeners_cleanup:
  assumes "wf w" and "effect (cells w c) = Some (ds, cl)"
  shows "listeners (subscription_cleanup cl w) =
         remove1 \<lparr>lid = snd cl, listenerModel = fst cl, consumer = c\<rparr> (listeners w)"
proof -
  have d: "distinct (map lid (listeners w))" using assms(1) by (simp add: wf_def lids_ok_def)
  show ?thesis
    using listeners_cleanup_filter [OF assms] filter_neq_remove1 [OF d] by simp
qed

lemma next_lid_cleanup [simp]: "next_lid (subscription_cleanup cl w) = next_lid w"
  by (simp add: subscription_cleanup_def removeListener_def)

lemma effect_cleanup [simp]: "effect (cells (subscription_cleanup cl w) c) = effect (cells w c)"
  by (simp add: subscription_cleanup_def removeListener_def)

lemma wf_after_cleanup:
  assumes "wf w" and "effect (cells w c) = Some (ds, cl)"
  shows "wf (set_effect c None (subscription_cleanup cl w))"
proof -
  let ?x = "\<lparr>lid = snd cl, listenerModel = fst cl, consumer = c\<rparr>"
  let ?w = "set_effect c None (subscription_cleanup cl w)"
  have ls: "listeners (subscription_cleanup cl w) = filter (\<lambda>l. l \<noteq> ?x) (listeners w)"
    using assms by (rule listeners_cleanup_filter)
  have lids: "lids_ok ?w"
    using assms(1) by (simp add: wf_def lids_ok_def ls distinct_map_filter)
  have sub: "subscribed w c = [?x]"
    using assms by (rule wf_bound)
  have "consumer_ok ?w c'" for c'
  proof (cases "c' = c")
    case True
    have "subscribed ?w c = filter (\<lambda>l. l \<noteq> ?x) (subscribed w c)"
      by (simp add: subscribed_def ls conj_commute)
    then show ?thesis using True by (simp add: consumer_ok_def effect_set_effect sub)
  next
    case False
    have "subscribed ?w c' = filter (\<lambda>l. consumer l = c') (filter (\<lambda>l. l \<noteq> ?x) (listeners w))"
      by (simp add: subscribed_def ls)
    also have "\<dots> = subscribed w c'"
      unfolding subscribed_def filter_filter
      by (rule filter_cong) (use False in auto)
    finally have "consumer_ok ?w c' = consumer_ok w c'"
      using False by (intro consumer_ok_cong) (simp_all add: effect_set_effect)
    then show ?thesis using assms(1) by (simp add: wf_def)
  qed
  with lids show ?thesis by (simp add: wf_def)
qed

lemma listeners_model_on:
  "listeners (snd (model_on lm c w)) =
     listeners w @ [\<lparr>lid = next_lid w, listenerModel = lm, consumer = c\<rparr>]"
  by (simp add: model_on_def)

lemma next_lid_model_on [simp]: "next_lid (snd (model_on lm c w)) = Suc (next_lid w)"
  by (simp add: model_on_def)

lemma effect_model_on [simp]: "effect (cells (snd (model_on lm c' w)) c) = effect (cells w c)"
  by (simp add: model_on_def)

lemma fst_model_on [simp]: "fst (model_on lm c w) = next_lid w"
  by (simp add: model_on_def)

lemma wf_after_subscribe:
  assumes "wf w" and "effect (cells w c) = None"
  shows "wf (set_effect c (Some (keys lm, (lm, next_lid w))) (snd (model_on lm c w)))"
proof -
  let ?n = "\<lparr>lid = next_lid w, listenerModel = lm, consumer = c\<rparr>"
  let ?w = "set_effect c (Some (keys lm, (lm, next_lid w))) (snd (model_on lm c w))"
  have ls: "listeners (snd (model_on lm c w)) = listeners w @ [?n]" by (rule listeners_model_on)
  have lids: "lids_ok ?w"
    using assms(1) by (auto simp: wf_def lids_ok_def ls less_Suc_eq)
  have sub: "subscribed w c = []"
    using assms by (rule wf_unbound)
  have "consumer_ok ?w c'" for c'
  proof (cases "c' = c")
    case True
    then show ?thesis by (simp add: consumer_ok_def effect_set_effect subscribed_def ls sub [unfolded subscribed_def])
  next
    case False
    have "subscribed ?w c' = subscribed w c'"
      using False by (simp add: subscribed_def ls)
    then have "consumer_ok ?w c' = consumer_ok w c'"
      using False by (intro consumer_ok_cong) (simp_all add: effect_set_effect)
    then show ?thesis using assms(1) by (simp add: wf_def)
  qed
  with lids show ?thesis by (simp add: wf_def)
qed

lemma model_on_set_effect:
  "set_effect c e (snd (model_on lm c' (set_effect c e0 w))) = set_effect c e (snd (model_on lm c' w))"
  by (simp add: set_effect_def model_on_def log_def)

lemma keys_listenerModel [simp]: "keys (with_eventContext (model_at r p) ctx) = (r, p, ctx)"
  by (simp add: keys_def with_eventContext_def model_at_def)

text \<open>The three cases of the effect.\<close>

lemma useEffect_first:
  assumes "effect (cells w c) = None"
  shows "useEffect c (subscription_effect c r p ctx) subscription_cleanup (r, p, ctx) w =
         set_effect c (Some ((r, p, ctx), (with_eventContext (model_at r p) ctx, next_lid w)))
           (snd (model_on (with_eventContext (model_at r p) ctx) c w))"
  using assms by (simp add: useEffect_def subscription_effect_def Let_def split_beta)

lemma useEffect_same:
  assumes "effect (cells w c) = Some ((r, p, ctx), cl)"
  shows "useEffect c (subscription_effect c r p ctx) subscription_cleanup (r, p, ctx) w = w"
  using assms by (simp add: useEffect_def)

lemma useEffect_changed:
  assumes "effect (cells w c) = Some (ds, cl)" and "ds \<noteq> (r, p, ctx)"
  shows "useEffect c (subscription_effect c r p ctx) subscription_cleanup (r, p, ctx) w =
         set_effect c (Some ((r, p, ctx), (with_eventContext (model_at r p) ctx, next_lid w)))
           (snd (model_on (with_eventContext (model_at r p) ctx) c (subscription_cleanup cl w)))"
  using assms by (simp add: useEffect_def subscription_effect_def Let_def split_beta)

lemma wf_useEffect:
  assumes "wf w"
  shows "wf (useEffect c (subscription_effect c r p ctx) subscription_cleanup (r, p, ctx) w)"
proof (cases "effect (cells w c)")
  case None
  from wf_after_subscribe [OF assms None, of "with_eventContext (model_at r p) ctx"]
  show ?thesis by (simp add: useEffect_first [OF None])
next
  case (Some e)
  obtain ds cl where e: "e = (ds, cl)" by (cases e)
  show ?thesis
  proof (cases "ds = (r, p, ctx)")
    case True
    with Some e assms show ?thesis by (simp add: useEffect_same)
  next
    case False
    let ?w1 = "set_effect c None (subscription_cleanup cl w)"
    have eff: "effect (cells w c) = Some (ds, cl)" using Some e by simp
    have w1: "wf ?w1" using assms eff by (rule wf_after_cleanup)
    have none: "effect (cells ?w1 c) = None" by (simp add: effect_set_effect)
    from wf_after_subscribe [OF w1 none, of "with_eventContext (model_at r p) ctx"]
    show ?thesis
      by (simp add: useEffect_changed [OF eff False] model_on_set_effect)
  qed
qed

lemma snd_useRacerState:
  "snd (useRacerState c m d w) =
     useEffect c (subscription_effect c (root m) (path m) (eventContext m)) subscription_cleanup
       (root m, path m, eventContext m)
       (useState c (coalesce (data w (root m) (path m)) d)
         (if \<not> nullish d then setNull m d (log (GetDeepCopy (root m) (path m)) w)
          else log (GetDeepCopy (root m) (path m)) w))"
  by (simp add: useRacerState_def getDeepCopy_def Let_def)

lemma wf_useRacerState:
  assumes "wf w"
  shows "wf (snd (useRacerState c m d w))"
  unfolding snd_useRacerState by (rule wf_useEffect) (simp add: assms)

lemma wf_empty_world: "wf empty_world"
  by (simp add: wf_def lids_ok_def consumer_ok_def subscribed_def empty_world_def initial_hook_def)

lemma wf_unmount:
  assumes "wf w"
  shows "wf (unmount c subscription_cleanup w)"
proof (cases "effect (cells w c)")
  case None
  with assms show ?thesis by (simp add: unmount_def)
next
  case (Some e)
  obtain ds cl where e: "e = (ds, cl)" by (cases e)
  with Some have eff: "effect (cells w c) = Some (ds, cl)" by simp
  from wf_after_cleanup [OF assms eff] show ?thesis by (simp add: unmount_def eff)
qed

lemma wf_step:
  assumes "wf w"
  shows "wf (step a w)"
  using assms by (cases a) (simp_all add: wf_useRacerState wf_unmount setModelValue_def)

lemma wf_run:
  assumes "wf w"
  shows "wf (run acts w)"
  using assms unfolding run_def by (induction acts arbitrary: w) (simp_all add: wf_step)

lemma wf_reachable: "wf (run acts empty_world)"
  by (rule wf_run) (rule wf_empty_world)

lemma effect_useRacerState_first:
  assumes "effect (cells w c) = None"
  shows "effect (cells (snd (useRacerState c m d w)) c) =
           Some (keys m, (with_eventContext (model_at (root m) (path m)) (eventContext m), next_lid w))"
    and "listeners (snd (useRacerState c m d w)) =
           listeners w @ [\<lparr>lid = next_lid w,
             listenerModel = with_eventContext (model_at (root m) (path m)) (eventContext m),
             consumer = c\<rparr>]"
proof -
  let ?w3 = "useState c (coalesce (data w (root m) (path m)) d)
         (if \<not> nullish d then setNull m d (log (GetDeepCopy (root m) (path m)) w)
          else log (GetDeepCopy (root m) (path m)) w)"
  have e: "effect (cells ?w3 c) = None" using assms by simp
  have l: "listeners ?w3 = listeners w" "next_lid ?w3 = next_lid w" by simp_all
  show "effect (cells (snd (useRacerState c m d w)) c) =
           Some (keys m, (with_eventContext (model_at (root m) (path m)) (eventContext m), next_lid w))"
    unfolding snd_useRacerState useEffect_first [OF e]
    by (simp add: effect_set_effect l keys_def)
  show "listeners (snd (useRacerState c m d w)) =
           listeners w @ [\<lparr>lid = next_lid w,
             listenerModel = with_eventContext (model_at (root m) (path m)) (eventContext m),
             consumer = c\<rparr>]"
    unfolding snd_useRacerState useEffect_first [OF e]
    by (simp add: listeners_model_on l)
qed

lemma useRacerState_rerender:
  assumes "wf w" and "effect (cells w c) = Some (k, cl)"
  shows "listeners (snd (useRacerState c m d w)) =
     (if keys m = k then listeners w
      else remove1 \<lparr>lid = snd cl, listenerModel = fst cl, consumer = c\<rparr> (listeners w) @
           [\<lparr>lid = next_lid w,
             listenerModel = with_eventContext (model_at (root m) (path m)) (eventContext m),
             consumer = c\<rparr>])"
   and "effect (cells (snd (useRacerState c m d w)) c) =
     (if keys m = k then Some (k, cl)
      else Some (keys m, (with_eventContext (model_at (root m) (path m)) (eventContext m), next_lid w)))"
proof -
  let ?w3 = "useState c (coalesce (data w (root m) (path m)) d)
         (if \<not> nullish d then setNull m d (log (GetDeepCopy (root m) (path m)) w)
          else log (GetDeepCopy (root m) (path m)) w)"
  have e: "effect (cells ?w3 c) = Some (k, cl)" using assms(2) by simp
  have l: "listeners ?w3 = listeners w" "next_lid ?w3 = next_lid w" by simp_all
  have wf3: "wf ?w3" using assms(1) by simp
  have rm: "listeners (subscription_cleanup cl ?w3) =
      remove1 \<lparr>lid = snd cl, listenerModel = fst cl, consumer = c\<rparr> (listeners w)"
    using listeners_cleanup [OF wf3 e] l by simp
  show "listeners (snd (useRacerState c m d w)) =
     (if keys m = k then listeners w
      else remove1 \<lparr>lid = snd cl, listenerModel = fst cl, consumer = c\<rparr> (listeners w) @
           [\<lparr>lid = next_lid w,
             listenerModel = with_eventContext (model_at (root m) (path m)) (eventContext m),
             consumer = c\<rparr>])"
  proof (cases "keys m = k")
    case True
    then have "effect (cells ?w3 c) = Some ((root m, path m, eventContext m), cl)"
      using e by (simp add: keys_def)
    from useEffect_same [OF this] have "snd (useRacerState c m d w) = ?w3"
      unfolding snd_useRacerState .
    then show ?thesis using True by simp
  next
    case False
    then have "k \<noteq> (root m, path m, eventContext m)" by (auto simp: keys_def)
    from useEffect_changed [OF e this] show ?thesis unfolding snd_useRacerState using False
      by (simp add: listeners_model_on rm l)
  qed
  show "effect (cells (snd (useRacerState c m d w)) c) =
     (if keys m = k then Some (k, cl)
      else Some (keys m, (with_eventContext (model_at (root m) (path m)) (eventContext m), next_lid w)))"
  proof (cases "keys m = k")
    case True
    then have "effect (cells ?w3 c) = Some ((root m, path m, eventContext m), cl)"
      using e by (simp add: keys_def)
    from useEffect_same [OF this] have "snd (useRacerState c m d w) = ?w3"
      unfolding snd_useRacerState .
    then show ?thesis using True assms(2) by simp
  next
    case False
    then have "k \<noteq> (root m, path m, eventContext m)" by (auto simp: keys_def)
    from useEffect_changed [OF e this] show ?thesis unfolding snd_useRacerState using False
      by (simp add: effect_set_effect l keys_def)
  qed
qed

lemma fresh_listener_not_registered:
  assumes "wf w"
  shows "\<lparr>lid = next_lid w, listenerModel = lm, consumer = c\<rparr> \<notin> set (listeners w)"
proof
  assume "\<lparr>lid = next_lid w, listenerModel = lm, consumer = c\<rparr> \<in> set (listeners w)"
  moreover from assms have "\<forall>l \<in> set (listeners w). lid l < next_lid w"
    by (simp add: wf_def lids_ok_def)
  ultimately have "lid \<lparr>lid = next_lid w, listenerModel = lm, consumer = c\<rparr> < next_lid w"
    by blast
  then show False by simp
qed

lemma calls_fold_run:
  "calls (fold run_listener ls w) =
     calls w @ map (\<lambda>l. GetDeepCopy (root (listenerModel l)) (path (listenerModel l))) ls"
  by (induction ls arbitrary: w) (simp_all add: run_listener_def getDeepCopy_def setStateValue_def)

lemma rendered_after_useRacerState: "rendered (cells (snd (useRacerState c m d w)) c)"
  by (simp add: useRacerState_def getDeepCopy_def Let_def useEffect_def split_beta set_effect_def
      subscription_effect_def model_on_def subscription_cleanup_def removeListener_def
      useState_def split: option.splits)

subsection \<open>The example worlds\<close>

lemma counter_bound_wf: "wf counter_bound"
  unfolding counter_bound_def by (rule wf_useRacerState) (rule wf_empty_world)

lemma empty_world_unbound: "effect (cells empty_world c) = None"
  by (simp add: empty_world_def initial_hook_def)

lemma counter_bound_effect:
  "effect (cells counter_bound 0) =
     Some (keys counter_model,
       (\<lparr>handle_id = 0, root = 0, path = [''_page'', ''counter''], eventContext = None\<rparr>, 0))"
  unfolding counter_bound_def effect_useRacerState_first(1) [OF empty_world_unbound]
  by (simp add: counter_model_def with_eventContext_def model_at_def empty_world_def)

lemma counter_bound_listeners:
  "listeners counter_bound =
     [\<lparr>lid = 0,
       listenerModel = \<lparr>handle_id = 0, root = 0, path = [''_page'', ''counter''], eventContext = None\<rparr>,
       consumer = 0\<rparr>]"
  unfolding counter_bound_def effect_useRacerState_first(2) [OF empty_world_unbound]
  by (simp add: counter_model_def with_eventContext_def model_at_def empty_world_def)

lemma counter_bound_value: "value_at counter_bound counter_model = JNum 1"
  by (simp add: counter_bound_def value_at_def data_useRacerState nullish_def empty_world_def)

section \<open>The default value\<close>


text \<open>
  C1. When the scoped path holds no value (\<^verbatim>\<open>null\<close> or \<^verbatim>\<open>undefined\<close>) and a
  non-null default is supplied, one invocation of \<^verbatim>\<open>useRacerState\<close> leaves the
  default in the store at that path and returns it as the current value.
\<close>

theorem C1_default_written_and_returned:
  assumes "nullish (value_at w m)" and "\<not> nullish d"
  shows "value_at (snd (useRacerState c m d w)) m = d \<and> fst (fst (useRacerState c m d w)) = d"
  using assms by (simp add: value_at_def data_useRacerState fst_useRacerState coalesce_def)

theorem C1_default_written_and_returned_witness:
  "nullish (value_at empty_world counter_model) \<and> \<not> nullish (JNum 1) \<and>
   value_at (snd (useRacerState 0 counter_model (JNum 1) empty_world)) counter_model = JNum 1 \<and>
   fst (fst (useRacerState 0 counter_model (JNum 1) empty_world)) = JNum 1"
  using C1_default_written_and_returned [of empty_world counter_model "JNum 1" 0]
  by (simp add: value_at_def empty_world_def nullish_def)

text \<open>
  C2. When the scoped path holds a value and a default is supplied, an invocation of
  \<^verbatim>\<open>useRacerState\<close> leaves that value in the store (the default never overwrites
  it) and returns it as the current value.
\<close>

theorem C2_existing_value_kept:
  assumes "value_at w m = v" and "\<not> nullish v"
  shows "value_at (snd (useRacerState c m d w)) m = v \<and> fst (fst (useRacerState c m d w)) = v \<and>
    data (snd (useRacerState c m d w)) = data w"
  using assms by (simp add: value_at_def data_useRacerState fst_useRacerState coalesce_def)

theorem C2_existing_value_kept_witness:
  "value_at counter_bound counter_model = JNum 1 \<and> \<not> nullish (JNum 1) \<and>
   value_at (snd (useRacerState 0 counter_model (JNum 7) counter_bound)) counter_model = JNum 1 \<and>
   fst (fst (useRacerState 0 counter_model (JNum 7) counter_bound)) = JNum 1"
proof -
  have n: "\<not> nullish (JNum 1)" by (simp add: nullish_def)
  from C2_existing_value_kept [OF counter_bound_value n, of 0 "JNum 7"] counter_bound_value n
  show ?thesis by simp
qed

text \<open>
  C3, as stated, fails: the default is written on the first render of consumer 0 (the
  path goes from \<^verbatim>\<open>undefined\<close> to 1), the path is then set to \<^verbatim>\<open>null\<close> from
  elsewhere, and the re-render of the same consumer writes the default a second time.
\<close>

theorem C3_default_written_again_on_rerender:
  "value_at empty_world counter_model = Undefined \<and>
   value_at counter_bound counter_model = JNum 1 \<and>
   rendered (cells counter_nulled 0) \<and>
   value_at counter_nulled counter_model = Null \<and>
   value_at (snd (useRacerState 0 counter_model (JNum 1) counter_nulled)) counter_model = JNum 1"
  by (simp add: value_at_def counter_nulled_def counter_bound_def data_useRacerState
      rendered_after_useRacerState nullish_def empty_world_def)

text \<open>
  C3, amended. When a non-null default is supplied, every invocation of
  \<^verbatim>\<open>useRacerState\<close>, the first render and each re-render alike, writes the default
  into the store if and only if the store holds no value (\<^verbatim>\<open>null\<close> or
  \<^verbatim>\<open>undefined\<close>) at the bound path at the time of that invocation; nothing else in
  the store changes.
\<close>

theorem C3_default_written_whenever_absent:
  assumes "\<not> nullish d"
  shows "data (snd (useRacerState c m d w)) =
     (if nullish (value_at w m) then (data w)(root m := (data w (root m))(path m := d))
      else data w)"
  using assms by (simp add: value_at_def data_useRacerState)

theorem C3_default_written_whenever_absent_witness:
  "\<not> nullish (JNum 1) \<and> rendered (cells counter_nulled 0) \<and>
   nullish (value_at counter_nulled counter_model) \<and>
   data (snd (useRacerState 0 counter_model (JNum 1) counter_nulled)) 0 [''_page'', ''counter''] = JNum 1"
proof -
  have n: "\<not> nullish (JNum 1)" by (simp add: nullish_def)
  have v: "value_at counter_nulled counter_model = Null"
    by (simp add: value_at_def counter_nulled_def)
  have r: "rendered (cells counter_nulled 0)"
    by (simp add: counter_nulled_def counter_bound_def rendered_after_useRacerState)
  from C3_default_written_whenever_absent [OF n, of 0 counter_model counter_nulled] n v r
  show ?thesis by (simp add: nullish_def counter_model_def)
qed

section \<open>The setter\<close>

text \<open>
  C4. The setter \<^verbatim>\<open>useRacerState\<close> returns closes over the scoped model it was
  given. Calling it with a value \<open>v\<close> makes one call on the store, the overwrite of
  the value at the bound path with \<open>v\<close>: the store afterwards is the store before
  with \<open>v\<close> at that path, whatever was there, and the only calls that follow the
  overwrite are the reads the notified listeners make.
\<close>

theorem C4_setter_overwrites:
  "snd (fst (useRacerState c m d w0)) = m \<and>
   data (setModelValue m v w) = (data w)(root m := (data w (root m))(path m := v)) \<and>
   value_at (setModelValue m v w) m = v \<and>
   calls (setModelValue m v w) =
     calls w @ SetValue (root m) (path m) v #
       map (\<lambda>l. GetDeepCopy (root (listenerModel l)) (path (listenerModel l)))
         (filter (matches (root m) (path m)) (listeners w))"
  by (simp add: fst_useRacerState setModelValue_def model_set_def value_at_def store_write_def
      emit_def calls_fold_run)

section \<open>The subscription\<close>

text \<open>
  C5. On a re-render of a consumer whose last effect ran with the keys \<open>k\<close>, the
  subscription is torn down and made anew if and only if the keys of the scoped model now
  passed (root, path, event context) differ from \<open>k\<close>: then the kept listener is
  removed and a new one registered; with the same keys, whatever the identity of the handle,
  the listeners of the store and the kept cleanup stay as they are.
\<close>

theorem C5_resubscribed_iff_keys_changed:
  assumes "wf w" and "effect (cells w c) = Some (k, cl)"
  shows "(listeners (snd (useRacerState c m d w)) \<noteq> listeners w) = (keys m \<noteq> k) \<and>
     listeners (snd (useRacerState c m d w)) =
       (if keys m = k then listeners w
        else remove1 \<lparr>lid = snd cl, listenerModel = fst cl, consumer = c\<rparr> (listeners w) @
             [\<lparr>lid = next_lid w,
               listenerModel = with_eventContext (model_at (root m) (path m)) (eventContext m),
               consumer = c\<rparr>]) \<and>
     effect (cells (snd (useRacerState c m d w)) c) =
       (if keys m = k then Some (k, cl)
        else Some (keys m, (with_eventContext (model_at (root m) (path m)) (eventContext m), next_lid w)))"
proof -
  let ?n = "\<lparr>lid = next_lid w,
               listenerModel = with_eventContext (model_at (root m) (path m)) (eventContext m),
               consumer = c\<rparr>"
  let ?x = "\<lparr>lid = snd cl, listenerModel = fst cl, consumer = c\<rparr>"
  have n: "?n \<notin> set (listeners w)" using assms(1) by (rule fresh_listener_not_registered)
  have "remove1 ?x (listeners w) @ [?n] \<noteq> listeners w"
  proof
    assume "remove1 ?x (listeners w) @ [?n] = listeners w"
    then have "?n \<in> set (listeners w)" by (metis in_set_conv_decomp)
    with n show False by simp
  qed
  then show ?thesis
    using useRacerState_rerender [OF assms, of m d] by simp
qed

theorem C5_resubscribed_iff_keys_changed_witness:
  "wf counter_bound \<and>
   effect (cells counter_bound 0) =
     Some (keys counter_model,
       (\<lparr>handle_id = 0, root = 0, path = [''_page'', ''counter''], eventContext = None\<rparr>, 0)) \<and>
   listeners (snd (useRacerState 0 (counter_model\<lparr>handle_id := 99\<rparr>) (JNum 1) counter_bound)) =
     listeners counter_bound \<and>
   listeners (snd (useRacerState 0 message_model Undefined counter_bound)) =
     [\<lparr>lid = next_lid counter_bound,
       listenerModel = \<lparr>handle_id = 0, root = 0, path = [''_page'', ''message''], eventContext = None\<rparr>,
       consumer = 0\<rparr>]"
  using C5_resubscribed_iff_keys_changed [OF counter_bound_wf counter_bound_effect,
      of "counter_model\<lparr>handle_id := 99\<rparr>" "JNum 1"]
    C5_resubscribed_iff_keys_changed [OF counter_bound_wf counter_bound_effect,
      of message_model Undefined]
    counter_bound_wf counter_bound_effect
  by (simp add: keys_def counter_model_def message_model_def counter_bound_listeners
      with_eventContext_def model_at_def)

lemma cells_fold_run_others:
  assumes "\<forall>l \<in> set ls. consumer l \<noteq> c"
  shows "cells (fold run_listener ls w) c = cells w c"
  using assms by (induction ls arbitrary: w) (simp_all add: cells_run_listener)

lemma cells_fold_run_one:
  assumes "filter (\<lambda>l. consumer l = c) ls = [x]"
  shows "cells (fold run_listener ls w) c =
         (cells w c)\<lparr>stateValue := value_at w (listenerModel x),
            setState_calls := Suc (setState_calls (cells w c))\<rparr>"
  using assms
proof (induction ls arbitrary: w)
  case Nil
  then show ?case by simp
next
  case (Cons l ls)
  show ?case
  proof (cases "consumer l = c")
    case True
    with Cons.prems have lx: "l = x" and rest: "filter (\<lambda>l. consumer l = c) ls = []" by simp_all
    from rest have "\<forall>l \<in> set ls. consumer l \<noteq> c" by (simp add: filter_empty_conv)
    then have "cells (fold run_listener ls (run_listener l w)) c = cells (run_listener l w) c"
      by (rule cells_fold_run_others)
    then show ?thesis using True lx by (simp add: cells_run_listener)
  next
    case False
    with Cons.prems have "filter (\<lambda>l. consumer l = c) ls = [x]" by simp
    from Cons.IH [OF this, of "run_listener l w"] False show ?thesis
      by (simp add: cells_run_listener value_at_def)
  qed
qed

lemma cells_emit_bound:
  assumes "wf w" and "effect (cells w c) = Some ((r, p, ctx), cl)"
  shows "cells (emit r' q w) c =
     (if r' = r \<and> prefix p q
      then (cells w c)\<lparr>stateValue := data w r p,
             setState_calls := Suc (setState_calls (cells w c))\<rparr>
      else cells w c)"
proof -
  let ?x = "\<lparr>lid = snd cl, listenerModel = fst cl, consumer = c\<rparr>"
  have sub: "subscribed w c = [?x]" using assms by (rule wf_bound)
  have "(r, p, ctx) = keys (fst cl)" using assms by (rule wf_bound)
  then have k: "root (fst cl) = r" "path (fst cl) = p" by (simp_all add: keys_def)
  have m: "matches r' q ?x = (r' = r \<and> prefix p q)" by (auto simp: matches_def k)
  have f: "filter (\<lambda>l. consumer l = c) (filter (matches r' q) (listeners w)) =
        filter (matches r' q) (subscribed w c)"
    by (simp add: subscribed_def conj_commute)
  show ?thesis
  proof (cases "r' = r \<and> prefix p q")
    case True
    with f sub m have "filter (\<lambda>l. consumer l = c) (filter (matches r' q) (listeners w)) = [?x]"
      by simp
    from cells_fold_run_one [OF this, of w] show ?thesis
      unfolding if_P [OF True] by (simp add: emit_def value_at_def k)
  next
    case False
    with f sub m have "filter (\<lambda>l. consumer l = c) (filter (matches r' q) (listeners w)) = []"
      by simp
    then have "\<forall>l \<in> set (filter (matches r' q) (listeners w)). consumer l \<noteq> c"
      by (simp add: filter_empty_conv)
    from cells_fold_run_others [OF this, of w] show ?thesis
      unfolding if_not_P [OF False] by (simp add: emit_def)
  qed
qed

text \<open>
  C6. For a consumer bound to the path \<open>p\<close> of the root \<open>r\<close>, a write to the store
  at a path that is neither \<open>p\<close> nor beneath it (or in another root) leaves the
  consumer's cell as it is: its listener is not called and no re-render is asked for. A
  write at \<open>p\<close> or beneath it calls the listener once, which puts the value now at
  \<open>p\<close> into the cell.
\<close>

theorem C6_notified_iff_at_or_beneath:
  assumes "wf w" and "effect (cells w c) = Some ((r, p, ctx), cl)"
  shows "cells (store_write r' q v w) c =
     (if r' = r \<and> prefix p q
      then (cells w c)\<lparr>stateValue := data (store_write r' q v w) r p,
             setState_calls := Suc (setState_calls (cells w c))\<rparr>
      else cells w c)"
proof -
  let ?w0 = "w\<lparr>data := (data w)(r' := (data w r')(q := v))\<rparr>"
  have "wf ?w0 = wf w" by (rule wf_cong) simp_all
  with assms(1) have wf0: "wf ?w0" by simp
  have e0: "effect (cells ?w0 c) = Some ((r, p, ctx), cl)" using assms(2) by simp
  from cells_emit_bound [OF wf0 e0, of r' q] show ?thesis
    by (simp add: store_write_def)
qed

theorem C6_notified_iff_at_or_beneath_witness:
  "wf counter_bound \<and>
   cells (store_write 0 [''_page'', ''message''] (JStr ''hello'') counter_bound) 0 =
     cells counter_bound 0 \<and>
   cells (store_write 0 [''_page'', ''counter'', ''x''] (JNum 5) counter_bound) 0 =
     (cells counter_bound 0)\<lparr>stateValue := JNum 1,
        setState_calls := Suc (setState_calls (cells counter_bound 0))\<rparr>"
  using C6_notified_iff_at_or_beneath [OF counter_bound_wf
      counter_bound_effect [unfolded keys_def counter_model_def, simplified],
      of 0 "[''_page'', ''message'']" "JStr ''hello''"]
    C6_notified_iff_at_or_beneath [OF counter_bound_wf
      counter_bound_effect [unfolded keys_def counter_model_def, simplified],
      of 0 "[''_page'', ''counter'', ''x'']" "JNum 5"]
    counter_bound_wf counter_bound_value
  by (simp add: value_at_def counter_model_def)

text \<open>
  C7. Every teardown of the subscription of a consumer, on its discarding and on a change
  of the keys, runs the kept cleanup, which removes from the store the one listener the
  matching setup registered, and that listener only: the consumer is left with no
  listener in the store, and the listeners of every other consumer are as before.
\<close>

theorem C7_teardown_removes_its_listener:
  assumes "wf w" and "effect (cells w c) = Some (k, cl)"
  shows "\<lparr>lid = snd cl, listenerModel = fst cl, consumer = c\<rparr> \<in> set (listeners w) \<and>
     listeners (subscription_cleanup cl w) =
       remove1 \<lparr>lid = snd cl, listenerModel = fst cl, consumer = c\<rparr> (listeners w) \<and>
     unmount c subscription_cleanup w = set_effect c None (subscription_cleanup cl w) \<and>
     subscribed (unmount c subscription_cleanup w) c = [] \<and>
     (\<forall>c'. c' \<noteq> c \<longrightarrow> subscribed (unmount c subscription_cleanup w) c' = subscribed w c') \<and>
     (keys m \<noteq> k \<longrightarrow>
        listeners (snd (useRacerState c m d w)) =
          listeners (subscription_cleanup cl w) @
            [\<lparr>lid = next_lid w,
              listenerModel = with_eventContext (model_at (root m) (path m)) (eventContext m),
              consumer = c\<rparr>])"
proof -
  let ?x = "\<lparr>lid = snd cl, listenerModel = fst cl, consumer = c\<rparr>"
  have u: "unmount c subscription_cleanup w = set_effect c None (subscription_cleanup cl w)"
    using assms(2) by (simp add: unmount_def)
  have wfu: "wf (unmount c subscription_cleanup w)" using assms(1) by (rule wf_unmount)
  have "effect (cells (unmount c subscription_cleanup w) c) = None"
    by (simp add: u effect_set_effect)
  with wfu have none: "subscribed (unmount c subscription_cleanup w) c = []" by (rule wf_unbound)
  have rm: "listeners (subscription_cleanup cl w) = remove1 ?x (listeners w)"
    using assms by (rule listeners_cleanup)
  have others: "subscribed (unmount c subscription_cleanup w) c' = subscribed w c'" if "c' \<noteq> c" for c'
  proof -
    have "subscribed (unmount c subscription_cleanup w) c' =
        filter (\<lambda>l. consumer l = c') (filter (\<lambda>l. l \<noteq> ?x) (listeners w))"
      using listeners_cleanup_filter [OF assms] by (simp add: subscribed_def u)
    also have "\<dots> = subscribed w c'"
      unfolding subscribed_def filter_filter
      by (rule filter_cong) (use that in auto)
    finally show ?thesis .
  qed
  show ?thesis
    using kept_listener_registered [OF assms] rm u none others
      useRacerState_rerender(1) [OF assms, of m d]
    by simp
qed

theorem C7_teardown_removes_its_listener_witness:
  "wf counter_bound \<and>
   listeners counter_bound =
     [\<lparr>lid = 0,
       listenerModel = \<lparr>handle_id = 0, root = 0, path = [''_page'', ''counter''], eventContext = None\<rparr>,
       consumer = 0\<rparr>] \<and>
   listeners (unmount 0 subscription_cleanup counter_bound) = [] \<and>
   keys message_model \<noteq> keys counter_model \<and>
   listeners (snd (useRacerState 0 message_model Undefined counter_bound)) =
     [\<lparr>lid = next_lid counter_bound,
       listenerModel = \<lparr>handle_id = 0, root = 0, path = [''_page'', ''message''], eventContext = None\<rparr>,
       consumer = 0\<rparr>]"
  using C7_teardown_removes_its_listener [OF counter_bound_wf counter_bound_effect,
      of message_model Undefined]
    counter_bound_wf
  by (simp add: keys_def counter_model_def message_model_def counter_bound_listeners
      with_eventContext_def model_at_def)

section \<open>The mount adapter\<close>

lemma handlers_root_unmount [simp]: "handlers (root_unmount r d) = handlers d"
  by (simp add: root_unmount_def split: option.splits)

lemma handlers_run_callback [simp]: "handlers (run_callback cb d) = handlers d"
  by (cases cb) simp_all

lemma handlers_fold_callbacks [simp]: "handlers (fold run_callback cbs d) = handlers d"
  by (induction cbs arbitrary: d) simp_all

lemma handlers_component_emit [simp]: "handlers (component_emit host ev d) = handlers d"
  by (simp add: component_emit_def)

lemma root_kept_root_unmount [simp]: "(roots (root_unmount r' d) r = None) = (roots d r = None)"
  by (simp add: root_unmount_def split: option.splits)

lemma root_kept_run_callback [simp]: "(roots (run_callback cb d) r = None) = (roots d r = None)"
  by (cases cb) simp_all

lemma root_kept_fold_callbacks [simp]:
  "(roots (fold run_callback cbs d) r = None) = (roots d r = None)"
  by (induction cbs arbitrary: d) simp_all

lemma root_kept_component_emit [simp]:
  "(roots (component_emit host ev d) r = None) = (roots d r = None)"
  by (simp add: component_emit_def)

lemma unmounted_root_unmount:
  "unmounted (root_unmount r' d) r = (unmounted d r \<or> (r' = r \<and> roots d r \<noteq> None))"
  by (auto simp: unmounted_def root_unmount_def split: option.splits)

lemma unmounted_run_callback:
  "unmounted (run_callback cb d) r = (unmounted d r \<or> (cb = UnmountRoot r \<and> roots d r \<noteq> None))"
  by (cases cb) (auto simp: unmounted_root_unmount)

lemma unmounted_fold_callbacks:
  "unmounted (fold run_callback cbs d) r =
     (unmounted d r \<or> (UnmountRoot r \<in> set cbs \<and> roots d r \<noteq> None))"
proof (induction cbs arbitrary: d)
  case Nil
  then show ?case by simp
next
  case (Cons cb cbs)
  have "unmounted (fold run_callback (cb # cbs) d) r =
      (unmounted (run_callback cb d) r \<or>
       (UnmountRoot r \<in> set cbs \<and> roots (run_callback cb d) r \<noteq> None))"
    by (simp only: fold_simps Cons.IH)
  also have "\<dots> = (unmounted d r \<or> (UnmountRoot r \<in> set (cb # cbs) \<and> roots d r \<noteq> None))"
    unfolding unmounted_run_callback root_kept_run_callback by auto
  finally show ?case .
qed

lemma unmounted_component_emit:
  "unmounted (component_emit host ev d) r =
     (unmounted d r \<or> ((host, ev, UnmountRoot r) \<in> set (handlers d) \<and> roots d r \<noteq> None))"
  by (force simp: component_emit_def unmounted_fold_callbacks hears_def)

lemma unmounted_run_events:
  assumes "roots d r \<noteq> None"
  shows "unmounted (run_events evs d) r =
     (unmounted d r \<or> (\<exists>e \<in> set evs. (fst e, snd e, UnmountRoot r) \<in> set (handlers d)))"
  using assms
proof (induction evs arbitrary: d)
  case Nil
  then show ?case by (simp add: run_events_def)
next
  case (Cons e evs)
  have "roots (component_emit (fst e) (snd e) d) r \<noteq> None" using Cons.prems by simp
  from Cons.IH [OF this] Cons.prems show ?case
    by (auto simp: run_events_def unmounted_component_emit)
qed

lemma renderReactComponent_ok:
  assumes "renderReactComponent host c node opts d = (Inr h, d')"
  shows "h = \<lparr>reactRoot = next_root d\<rparr>"
    and "roots d' = (roots d)(next_root d \<mapsto> \<lparr>container = c, rootOptions = opts, status = Rendered node\<rparr>)"
    and "handlers d' = handlers d @ [(host, ''destroy'', UnmountRoot (next_root d))]"
    and "next_root d' = Suc (next_root d)"
  using assms
  by (auto simp: renderReactComponent_def createRoot_def component_on_def root_render_def Let_def
      split: if_splits)

lemma dom_ok_empty: "dom_ok empty_dom" by (simp add: dom_ok_def empty_dom_def)

lemma dom_ok_renderReactComponent:
  assumes "dom_ok d"
  shows "dom_ok (snd (renderReactComponent host c node opts d))"
  using assms
  by (auto simp: dom_ok_def renderReactComponent_def createRoot_def component_on_def root_render_def Let_def less_Suc_eq
      split: if_splits option.splits)

lemma next_root_root_unmount [simp]: "next_root (root_unmount r d) = next_root d"
  by (simp add: root_unmount_def split: option.splits)

lemma next_root_run_callback [simp]: "next_root (run_callback cb d) = next_root d"
  by (cases cb) simp_all

lemma next_root_fold_callbacks [simp]: "next_root (fold run_callback cbs d) = next_root d"
  by (induction cbs arbitrary: d) simp_all

lemma dom_ok_component_emit:
  assumes "dom_ok d"
  shows "dom_ok (component_emit host ev d)"
  using assms by (simp add: dom_ok_def component_emit_def)

lemma renderReactComponent_returns_handle:
  assumes "valid_container d c" and "\<not> render_throws d node"
  shows "fst (renderReactComponent host c node opts d) = Inr \<lparr>reactRoot = next_root d\<rparr>"
  using assms
  by (simp add: renderReactComponent_def createRoot_def component_on_def root_render_def Let_def)

text \<open>
  C8. For every call of \<^verbatim>\<open>renderReactComponent\<close> that creates a rendering root, the
  root is mounted when the call ends (and handed back, unless the render threw) and, over
  any run of events of the host framework that follows, it is unmounted exactly when the
  \<^verbatim>\<open>destroy\<close> event of the host component has fired: not before it, and always
  after it.
\<close>

theorem C8_unmounted_iff_destroyed:
  assumes "dom_ok d" and "valid_container d c"
  shows "fst (renderReactComponent host c node opts d) =
       (if render_throws d node then Inl RenderError else Inr \<lparr>reactRoot = next_root d\<rparr>) \<and>
     roots (snd (renderReactComponent host c node opts d)) (next_root d) \<noteq> None \<and>
     (\<forall>evs. unmounted (run_events evs (snd (renderReactComponent host c node opts d))) (next_root d) =
        ((host, ''destroy'') \<in> set evs))"
proof -
  let ?d = "snd (renderReactComponent host c node opts d)"
  let ?r = "next_root d"
  have h: "handlers ?d = handlers d @ [(host, ''destroy'', UnmountRoot ?r)]"
    using assms(2)
    by (simp add: renderReactComponent_def createRoot_def component_on_def root_render_def Let_def)
  have st: "\<exists>rt. roots ?d ?r = Some rt \<and> status rt \<noteq> Unmounted"
    using assms(2)
    by (simp add: renderReactComponent_def createRoot_def component_on_def root_render_def Let_def)
  then have ex: "roots ?d ?r \<noteq> None" by auto
  from st have mounted: "\<not> unmounted ?d ?r" by (auto simp: unmounted_def)
  have old: "(a, b, UnmountRoot ?r) \<notin> set (handlers d)" for a b
    using assms(1) by (fastforce simp: dom_ok_def)
  have "unmounted (run_events evs ?d) ?r = ((host, ''destroy'') \<in> set evs)" for evs
    unfolding unmounted_run_events [OF ex]
    using mounted old by (force simp: h)
  moreover have "fst (renderReactComponent host c node opts d) =
       (if render_throws d node then Inl RenderError else Inr \<lparr>reactRoot = next_root d\<rparr>)"
    using assms(2)
    by (simp add: renderReactComponent_def createRoot_def component_on_def root_render_def Let_def)
  ultimately show ?thesis using ex by simp
qed

theorem C8_unmounted_iff_destroyed_witness:
  "dom_ok empty_dom \<and> valid_container empty_dom 3 \<and>
   fst (renderReactComponent 7 3 5 Undefined empty_dom) = Inr \<lparr>reactRoot = 0\<rparr> \<and>
   \<not> unmounted (run_events [(7, ''create''), (8, ''destroy'')]
        (snd (renderReactComponent 7 3 5 Undefined empty_dom))) 0 \<and>
   unmounted (run_events [(7, ''create''), (7, ''destroy'')]
        (snd (renderReactComponent 7 3 5 Undefined empty_dom))) 0"
proof -
  have v: "valid_container empty_dom 3" by (simp add: empty_dom_def)
  have n: "next_root empty_dom = 0" by (simp add: empty_dom_def)
  have t: "\<not> render_throws empty_dom 5" by (simp add: empty_dom_def)
  from C8_unmounted_iff_destroyed [OF dom_ok_empty v, of 7 5 Undefined] dom_ok_empty v
  show ?thesis by (simp add: n t)
qed

text \<open>
  C9. The claim is that \<^verbatim>\<open>renderReactComponent\<close> may be called without the root
  options. The declaration makes the parameter required, so a call with three arguments,
  as the function's own example writes it, is rejected.
\<close>

theorem C9_three_argument_call_rejected:
  "\<not> accepts_arguments renderReactComponent_params 3"
  by (simp add: accepts_arguments_def renderReactComponent_params_def)

text \<open>
  C10. \<^verbatim>\<open>renderReactComponent\<close> registers the listener that unmounts the new root
  before it renders: when the initial render throws, the call ends with that error, the
  listener is on the host component's \<^verbatim>\<open>destroy\<close> event all the same, and the event
  unmounts the root.
\<close>

theorem C10_destroy_listener_installed_before_render:
  assumes "valid_container d c" and "render_throws d node"
  shows "fst (renderReactComponent host c node opts d) = Inl RenderError \<and>
     (host, ''destroy'', UnmountRoot (next_root d))
        \<in> set (handlers (snd (renderReactComponent host c node opts d))) \<and>
     roots (snd (renderReactComponent host c node opts d)) (next_root d) =
        Some \<lparr>container = c, rootOptions = opts, status = Created\<rparr> \<and>
     unmounted (component_emit host ''destroy'' (snd (renderReactComponent host c node opts d)))
        (next_root d)"
  using assms
  by (simp add: renderReactComponent_def createRoot_def component_on_def root_render_def Let_def
      unmounted_component_emit)

theorem C10_destroy_listener_installed_before_render_witness:
  "valid_container empty_dom 3 \<and> render_throws empty_dom 13 \<and>
   fst (renderReactComponent 7 3 13 Undefined empty_dom) = Inl RenderError \<and>
   handlers (snd (renderReactComponent 7 3 13 Undefined empty_dom)) = [(7, ''destroy'', UnmountRoot 0)]"
proof -
  have v: "valid_container empty_dom 3" and t: "render_throws empty_dom 13"
    by (simp_all add: empty_dom_def)
  from C10_destroy_listener_installed_before_render [OF v t, of 7 Undefined] v t
  show ?thesis
    by (simp add: renderReactComponent_def createRoot_def component_on_def root_render_def
        Let_def empty_dom_def)
qed

end
